theory Spec2Isabelle
  imports Main "HOL-Library.Word"
begin

unbundle bit_operations_syntax

section \<open>Bytes, integers and errors\<close>

type_synonym byte = "8 word"
type_synonym uint64 = "64 word"

text \<open>
  The error values that reach a caller of the framed stream (server part of
  \<^verbatim>\<open>client.go\<close>): \<open>EOF\<close> is Go's \<^verbatim>\<open>io.EOF\<close>, the clean end-of-data signal of a
  reader; \<open>StreamError k\<close> is any other error value of the QUIC stream, told apart by a
  number; \<open>IncorrectFrameType t\<close> is the \<^verbatim>\<open>fmt.Errorf("Incorrect HTTP3 frame type! ...", t)\<close>
  of \<^verbatim>\<open>RWStreamImp.Read\<close>, the only error the framing layer makes itself.
\<close>

datatype error =
    EOF
  | StreamError nat
  | IncorrectFrameType uint64

section \<open>Variable-length integers\<close>

text \<open>
  Modelled from the spec: the package \<^verbatim>\<open>quicvarint\<close> is imported from
  \<^verbatim>\<open>github.com/lucas-clemente/quic-go\<close> and its source is not part of the repository.
  \<open>encode\<close> follows sections 3 and 4.1: the smallest of the widths 1, 2, 4 and 8 bytes
  that holds the value, a two-bit tag (00, 01, 10, 11) in the two most significant bits
  of the first byte, the value in the remaining bits in big-endian order. A value above
  \<open>2 ^ 62 - 1\<close> has no encoding (\<open>None\<close>: the spec's RangeError, a panic of
  \<^verbatim>\<open>quicvarint.Write\<close>).
\<close>

definition encode :: "uint64 \<Rightarrow> byte list option" where
  "encode i =
     (if i \<le> 63 then Some [ucast i]
      else if i \<le> 16383 then Some [ucast (drop_bit 8 i) OR 0x40, ucast i]
      else if i \<le> 1073741823 then
        Some [ucast (drop_bit 24 i) OR 0x80, ucast (drop_bit 16 i), ucast (drop_bit 8 i),
              ucast i]
      else if i \<le> 4611686018427387903 then
        Some [ucast (drop_bit 56 i) OR 0xc0, ucast (drop_bit 48 i), ucast (drop_bit 40 i),
              ucast (drop_bit 32 i), ucast (drop_bit 24 i), ucast (drop_bit 16 i),
              ucast (drop_bit 8 i), ucast i]
      else None)"

text \<open>
  A byte source is Go's \<^verbatim>\<open>io.ByteReader\<close>: one call takes the state of the source and
  returns the new state with either an error or the next byte.
\<close>

type_synonym 's byteReader = "'s \<Rightarrow> 's \<times> (error + byte)"

text \<open>
  Modelled from the spec: \<open>decode\<close> of section 4.1, absent from the repository like
  \<open>encode\<close>. It reads the first byte, takes the width from its top two bits, reads the
  remaining \<open>width - 1\<close> bytes one at a time and reassembles the value in big-endian
  order; the result is the value with the number of bytes consumed. An error of the
  source is returned unchanged; end-of-data reaches \<open>decode\<close> as the source's error
  \<open>EOF\<close> (the case the spec calls TruncatedInput) and is passed on like the others.
\<close>

fun read_rest :: "'s byteReader \<Rightarrow> nat \<Rightarrow> uint64 \<Rightarrow> 's \<Rightarrow> 's \<times> (error + uint64)" where
  "read_rest rb 0 acc s = (s, Inr acc)"
| "read_rest rb (Suc k) acc s =
     (case rb s of
        (s', Inl e) \<Rightarrow> (s', Inl e)
      | (s', Inr b) \<Rightarrow> read_rest rb k (push_bit 8 acc + ucast b) s')"

definition decode :: "'s byteReader \<Rightarrow> 's \<Rightarrow> 's \<times> (error + uint64 \<times> nat)" where
  "decode rb s =
     (case rb s of
        (s1, Inl e) \<Rightarrow> (s1, Inl e)
      | (s1, Inr firstByte) \<Rightarrow>
          (let width = (2::nat) ^ unat (drop_bit 6 firstByte) in
           case read_rest rb (width - 1) (ucast (firstByte AND 0x3f)) s1 of
             (s2, Inl e) \<Rightarrow> (s2, Inl e)
           | (s2, Inr v) \<Rightarrow> (s2, Inr (v, width))))"

text \<open>A byte list as a byte source: the next byte, or \<open>EOF\<close> when none is left.\<close>

definition list_ReadByte :: "byte list byteReader" where
  "list_ReadByte bs = (case bs of [] \<Rightarrow> ([], Inl EOF) | b # r \<Rightarrow> (r, Inr b))"

text \<open>
  The two entry points the repository calls. \<^verbatim>\<open>quicvarint.Write(b, i)\<close> appends the
  encoding of \<open>i\<close> to the buffer \<open>b\<close> (\<open>None\<close>: the panic on a value that does not fit
  into 62 bits); \<^verbatim>\<open>quicvarint.Read(r)\<close> returns the decoded value or the error.
\<close>

definition quicvarint_Write :: "byte list \<Rightarrow> uint64 \<Rightarrow> byte list option" where
  "quicvarint_Write b i = (case encode i of None \<Rightarrow> None | Some bs \<Rightarrow> Some (b @ bs))"

definition quicvarint_Read :: "'s byteReader \<Rightarrow> 's \<Rightarrow> 's \<times> (error + uint64)" where
  "quicvarint_Read rb s =
     (case decode rb s of
        (s', Inl e) \<Rightarrow> (s', Inl e)
      | (s', Inr (v, n)) \<Rightarrow> (s', Inr v))"

section \<open>The frame header\<close>

text \<open>
  \<^verbatim>\<open>type dataFrame struct { Length uint64 }\<close> and its method \<^verbatim>\<open>Write(b *bytes.Buffer)\<close>,
  which appends the frame type \<open>0x0\<close> and then the length to the buffer. The buffer is
  the list of bytes it holds; \<open>None\<close> is the panic of \<^verbatim>\<open>quicvarint.Write\<close>.
\<close>

record dataFrame =
  Length :: uint64

definition dataFrame_Write :: "dataFrame \<Rightarrow> byte list \<Rightarrow> byte list option" where
  "dataFrame_Write f b =
     (case quicvarint_Write b 0x0 of
        None \<Rightarrow> None
      | Some b' \<Rightarrow> quicvarint_Write b' (Length f))"

section \<open>The QUIC stream under the framing layer\<close>

text \<open>
  \<^verbatim>\<open>quic.Stream\<close> is an interface of the imported quic-go package: the framing layer
  only calls its methods \<^verbatim>\<open>Read\<close>, \<^verbatim>\<open>Write\<close> and \<^verbatim>\<open>Close\<close>, and asks with a type
  assertion whether it also has \<^verbatim>\<open>ReadByte\<close>. The interface is a record of these
  methods over the state \<open>'s\<close> of the stream, which every call returns updated.
  \<^item> \<open>Stream_Read s n\<close> is \<^verbatim>\<open>Read(p)\<close> with \<open>len(p) = n\<close>: the bytes stored into
    \<open>p\<close> (their number is Go's returned count) and the error.
  \<^item> \<open>Stream_Write s b\<close> is \<^verbatim>\<open>Write(b)\<close>: the count of bytes accepted and the error.
  \<^item> \<open>Stream_Close s\<close> is \<^verbatim>\<open>Close()\<close>.
  \<^item> \<open>Stream_ReadByte\<close> is \<open>Some\<close> of the method when the dynamic type of the stream
    implements \<^verbatim>\<open>io.ByteReader\<close>, and \<open>None\<close> otherwise.
\<close>

record 's Stream =
  Stream_Read :: "'s \<Rightarrow> nat \<Rightarrow> 's \<times> byte list \<times> error option"
  Stream_Write :: "'s \<Rightarrow> byte list \<Rightarrow> 's \<times> nat \<times> error option"
  Stream_Close :: "'s \<Rightarrow> 's \<times> error option"
  Stream_ReadByte :: "'s byteReader option"

text \<open>
  \<^verbatim>\<open>byteReaderImpl.ReadByte\<close>: reads into a fresh one-byte buffer and returns its byte
  unless the read returned an error. The count returned by the read is ignored: a read
  of no byte without error leaves the zero the buffer was made with.
\<close>

definition byteReaderImpl_ReadByte :: "'s Stream \<Rightarrow> 's byteReader" where
  "byteReaderImpl_ReadByte ops s =
     (case Stream_Read ops s 1 of
        (s', b, Some err) \<Rightarrow> (s', Inl err)
      | (s', b, None) \<Rightarrow> (s', Inr (case b of [] \<Rightarrow> 0 | x # _ \<Rightarrow> x)))"

section \<open>The framed stream\<close>

text \<open>
  \<^verbatim>\<open>type RWStreamImp struct { str quic.Stream }\<close>: the one field is the stream. The
  methods take the method table of the stream, the framed stream and their argument,
  and return the framed stream with the state of the underlying stream updated.
\<close>

record 's RWStreamImp =
  str :: 's

definition NewRWStream :: "'s \<Rightarrow> 's RWStreamImp" where
  "NewRWStream s = \<lparr>str = s\<rparr>"

text \<open>
  \<^verbatim>\<open>RWStreamImp.Write\<close>: builds the header for \<open>uint64(len(p))\<close> in a fresh buffer,
  writes the header, returns \<open>0\<close> and the error if that write returns an error, and
  otherwise returns what the write of \<open>p\<close> returns. \<open>None\<close> is the panic of the header
  encoding, raised before anything is written.
\<close>

definition Write ::
  "'s Stream \<Rightarrow> 's RWStreamImp \<Rightarrow> byte list \<Rightarrow> ('s RWStreamImp \<times> nat \<times> error option) option"
where
  "Write ops w p =
     (case dataFrame_Write \<lparr>Length = of_nat (length p)\<rparr> [] of
        None \<Rightarrow> None
      | Some buf \<Rightarrow>
          (case Stream_Write ops (str w) buf of
             (s1, n1, Some err) \<Rightarrow> Some (w\<lparr>str := s1\<rparr>, 0, Some err)
           | (s1, n1, None) \<Rightarrow>
               (case Stream_Write ops s1 p of
                  (s2, n, err) \<Rightarrow> Some (w\<lparr>str := s2\<rparr>, n, err))))"

text \<open>
  \<^verbatim>\<open>RWStreamImp.Read\<close> with \<open>len(p) = lenp\<close>: the byte reader is the stream itself when
  it implements \<^verbatim>\<open>io.ByteReader\<close> and a \<^verbatim>\<open>byteReaderImpl\<close> around it otherwise; the type
  and then the length are read as varints, each error returned with a count of \<open>0\<close>; a
  type other than \<open>0x0\<close> is an error; then one read of the stream into \<open>p\<close>, cut to
  the length of the frame when that is smaller than \<open>uint64(len(p))\<close>, whose result is
  returned as it is. \<open>bytesRemainingInFrame\<close> is a local variable of the call.
\<close>

definition Read ::
  "'s Stream \<Rightarrow> 's RWStreamImp \<Rightarrow> nat \<Rightarrow> 's RWStreamImp \<times> byte list \<times> error option"
where
  "Read ops w lenp =
     (let br = (case Stream_ReadByte ops of
                  Some rb \<Rightarrow> rb
                | None \<Rightarrow> byteReaderImpl_ReadByte ops)
      in case quicvarint_Read br (str w) of
           (s1, Inl err) \<Rightarrow> (w\<lparr>str := s1\<rparr>, [], Some err)
         | (s1, Inr t) \<Rightarrow>
             (case quicvarint_Read br s1 of
                (s2, Inl err) \<Rightarrow> (w\<lparr>str := s2\<rparr>, [], Some err)
              | (s2, Inr l) \<Rightarrow>
                  if t \<noteq> 0x0 then (w\<lparr>str := s2\<rparr>, [], Some (IncorrectFrameType t))
                  else
                    (let bytesRemainingInFrame = l in
                     case (if bytesRemainingInFrame < of_nat lenp
                           then Stream_Read ops s2 (unat bytesRemainingInFrame)
                           else Stream_Read ops s2 lenp) of
                       (s3, bs, err) \<Rightarrow> (w\<lparr>str := s3\<rparr>, bs, err))))"

text \<open>\<^verbatim>\<open>RWStreamImp.Close\<close>: returns what the stream's \<^verbatim>\<open>Close\<close> returns.\<close>

definition Close :: "'s Stream \<Rightarrow> 's RWStreamImp \<Rightarrow> 's RWStreamImp \<times> error option" where
  "Close ops w = (case Stream_Close ops (str w) of (s', err) \<Rightarrow> (w\<lparr>str := s'\<rparr>, err))"

text \<open>\<open>Close\<close> called \<open>k\<close> times in a row; the errors are dropped.\<close>

fun Close_times :: "'s Stream \<Rightarrow> nat \<Rightarrow> 's RWStreamImp \<Rightarrow> 's RWStreamImp" where
  "Close_times ops 0 w = w"
| "Close_times ops (Suc k) w = Close_times ops k (fst (Close ops w))"

section \<open>A stream to run the framing layer on\<close>

text \<open>
  Modelled from the spec: the raw conduit of section 6, which the repository takes from
  the quic-go package. One end of the conduit holds the bytes that have arrived and are
  not read yet (\<open>inbuf\<close>), the bytes it has accepted for sending (\<open>outbuf\<close>) and the
  number of times it was closed (\<open>closes\<close>).
  \<^item> A read fills the buffer with as many bytes as are available, up to its capacity; with
    no byte left it signals clean end-of-data, Go's \<open>(0, io.EOF)\<close>. A read into an empty
    buffer returns \<open>(0, nil)\<close>.
  \<^item> A write accepts all the bytes.
  \<^item> A close is counted and returns no error; reading what has arrived goes on after
    it, as on a QUIC stream, whose \<^verbatim>\<open>Close\<close> ends the sending direction only.
  The stream has no \<^verbatim>\<open>ReadByte\<close> method.
\<close>

record pipe =
  inbuf :: "byte list"
  outbuf :: "byte list"
  closes :: nat

definition pipe_Read :: "pipe \<Rightarrow> nat \<Rightarrow> pipe \<times> byte list \<times> error option" where
  "pipe_Read s n =
     (if n = 0 then (s, [], None)
      else if inbuf s = [] then (s, [], Some EOF)
      else (s\<lparr>inbuf := drop n (inbuf s)\<rparr>, take n (inbuf s), None))"

definition pipe_Write :: "pipe \<Rightarrow> byte list \<Rightarrow> pipe \<times> nat \<times> error option" where
  "pipe_Write s b = (s\<lparr>outbuf := outbuf s @ b\<rparr>, length b, None)"

definition pipe_Close :: "pipe \<Rightarrow> pipe \<times> error option" where
  "pipe_Close s = (s\<lparr>closes := Suc (closes s)\<rparr>, None)"

definition pipe_Stream :: "pipe Stream" where
  "pipe_Stream =
     \<lparr>Stream_Read = pipe_Read, Stream_Write = pipe_Write, Stream_Close = pipe_Close,
      Stream_ReadByte = None\<rparr>"

text \<open>
  The same conduit with a sending side that takes at most \<open>k\<close> bytes in one write: of a
  longer write it accepts the first \<open>k\<close> bytes and returns their count with an error, as
  the contract of \<^verbatim>\<open>io.Writer\<close> asks of a short write.
\<close>

definition short_Write :: "nat \<Rightarrow> pipe \<Rightarrow> byte list \<Rightarrow> pipe \<times> nat \<times> error option" where
  "short_Write k s b =
     (if length b \<le> k then pipe_Write s b
      else (s\<lparr>outbuf := outbuf s @ take k b\<rparr>, k, Some (StreamError 0)))"

definition short_Stream :: "nat \<Rightarrow> pipe Stream" where
  "short_Stream k =
     \<lparr>Stream_Read = pipe_Read, Stream_Write = short_Write k, Stream_Close = pipe_Close,
      Stream_ReadByte = None\<rparr>"

text \<open>
  The receiving end of a conduit that delivers all the bytes its sending end accepted.
\<close>

definition peer :: "pipe \<Rightarrow> pipe" where
  "peer s = \<lparr>inbuf = outbuf s, outbuf = [], closes = 0\<rparr>"

section \<open>Properties of the variable-length integers\<close>

lemma bit_below: "bit (i::uint64) m \<Longrightarrow> i < 2 ^ n \<Longrightarrow> m < n"
proof -
  assume b: "bit i m" and l: "i < 2 ^ n"
  from l have "i AND mask n = i" by (rule less_mask_eq)
  then have "bit (i AND mask n) m" using b by simp
  then show "m < n" by (simp add: bit_simps)
qed

lemma byte_step: "push_bit 8 (drop_bit 8 y) + ucast (ucast y :: byte) = (y::uint64)"
proof -
  have "push_bit 8 (drop_bit 8 y) + ucast (ucast y :: byte)
      = push_bit 8 (drop_bit 8 y) OR ucast (ucast y :: byte)"
    by (rule disjunctive_add) (auto simp: bit_simps dest: bit_imp_le_length)
  also have "\<dots> = y"
    by (rule bit_word_eqI) (auto simp: bit_simps)
  finally show ?thesis .
qed

lemma tag_bits:
  "bit (0x40 :: int) n \<Longrightarrow> 6 \<le> n"
  "bit (0x80 :: int) n \<Longrightarrow> 6 \<le> n"
  "bit (0xc0 :: int) n \<Longrightarrow> 6 \<le> n"
  using bit_push_bit_iff [where ?'a = int, of 6 1 n] bit_push_bit_iff [where ?'a = int, of 6 2 n]
    bit_push_bit_iff [where ?'a = int, of 6 3 n]
  by simp_all

lemma tag0: "i \<le> 63 \<Longrightarrow> drop_bit 6 (ucast (i::uint64) :: byte) = 0"
  and val0: "i \<le> 63 \<Longrightarrow> ucast ((ucast (i::uint64) :: byte) AND 0x3f) = i"
proof -
  assume "i \<le> 63"
  then have l: "i < 2 ^ 6" by (simp add: word_le_nat_alt word_less_nat_alt)
  have m: "(0x3f :: byte) = mask 6" by (simp add: mask_eq_exp_minus_1)
  show "drop_bit 6 (ucast (i::uint64) :: byte) = 0"
    by (rule bit_word_eqI) (auto simp: bit_simps dest: bit_below [OF _ l])
  show "ucast ((ucast (i::uint64) :: byte) AND 0x3f) = i"
    unfolding m
    by (rule bit_word_eqI) (auto simp: bit_simps dest: bit_below [OF _ l])
qed

lemma tag1: "i \<le> 16383 \<Longrightarrow> drop_bit 6 (ucast (drop_bit 8 (i::uint64)) OR (0x40::byte)) = 1"
  and val1: "i \<le> 16383 \<Longrightarrow> ucast ((ucast (drop_bit 8 (i::uint64)) OR (0x40::byte)) AND 0x3f) = drop_bit 8 i"
proof -
  assume "i \<le> 16383"
  then have l: "i < 2 ^ 14" by (simp add: word_le_nat_alt word_less_nat_alt)
  have m: "(0x3f :: byte) = mask 6" by (simp add: mask_eq_exp_minus_1)
  show "drop_bit 6 (ucast (drop_bit 8 (i::uint64)) OR (0x40::byte)) = 1"
    by (rule bit_word_eqI) (auto simp: bit_simps dest: bit_below [OF _ l])
  have s: "(x OR (0x40::byte)) AND 0x3f = x AND mask 6" for x
    unfolding m by (rule bit_word_eqI) (auto simp: bit_simps dest: tag_bits)
  show "ucast ((ucast (drop_bit 8 (i::uint64)) OR (0x40::byte)) AND 0x3f) = drop_bit 8 i"
    unfolding s
    by (rule bit_word_eqI) (auto simp: bit_simps dest: bit_below [OF _ l])
qed

lemma tag2: "i \<le> 1073741823 \<Longrightarrow> drop_bit 6 (ucast (drop_bit 24 (i::uint64)) OR (0x80::byte)) = 2"
  and val2: "i \<le> 1073741823 \<Longrightarrow> ucast ((ucast (drop_bit 24 (i::uint64)) OR (0x80::byte)) AND 0x3f) = drop_bit 24 i"
proof -
  assume "i \<le> 1073741823"
  then have l: "i < 2 ^ 30" by (simp add: word_le_nat_alt word_less_nat_alt)
  have m: "(0x3f :: byte) = mask 6" by (simp add: mask_eq_exp_minus_1)
  show "drop_bit 6 (ucast (drop_bit 24 (i::uint64)) OR (0x80::byte)) = 2"
    by (rule bit_word_eqI) (auto simp: bit_simps dest: bit_below [OF _ l])
  have s: "(x OR (0x80::byte)) AND 0x3f = x AND mask 6" for x
    unfolding m by (rule bit_word_eqI) (auto simp: bit_simps dest: tag_bits)
  show "ucast ((ucast (drop_bit 24 (i::uint64)) OR (0x80::byte)) AND 0x3f) = drop_bit 24 i"
    unfolding s
    by (rule bit_word_eqI) (auto simp: bit_simps dest: bit_below [OF _ l])
qed

lemma tag3: "i \<le> 4611686018427387903 \<Longrightarrow> drop_bit 6 (ucast (drop_bit 56 (i::uint64)) OR (0xc0::byte)) = 3"
  and val3: "i \<le> 4611686018427387903 \<Longrightarrow>
   ucast ((ucast (drop_bit 56 (i::uint64)) OR (0xc0::byte)) AND 0x3f) = drop_bit 56 i"
proof -
  assume "i \<le> 4611686018427387903"
  then have l: "i < 2 ^ 62" by (simp add: word_le_nat_alt word_less_nat_alt)
  have m: "(0x3f :: byte) = mask 6" by (simp add: mask_eq_exp_minus_1)
  show "drop_bit 6 (ucast (drop_bit 56 (i::uint64)) OR (0xc0::byte)) = 3"
    by (rule bit_word_eqI) (auto simp: bit_simps dest: bit_below [OF _ l])
  have s: "(x OR (0xc0::byte)) AND 0x3f = x AND mask 6" for x
    unfolding m by (rule bit_word_eqI) (auto simp: bit_simps dest: tag_bits)
  show "ucast ((ucast (drop_bit 56 (i::uint64)) OR (0xc0::byte)) AND 0x3f) = drop_bit 56 i"
    unfolding s
    by (rule bit_word_eqI) (auto simp: bit_simps dest: bit_below [OF _ l])
qed

lemma steps:
  "push_bit 8 (drop_bit 8 i) + ucast (ucast i :: byte) = (i::uint64)"
  "push_bit 8 (drop_bit 16 i) + ucast (ucast (drop_bit 8 i) :: byte) = drop_bit 8 i"
  "push_bit 8 (drop_bit 24 i) + ucast (ucast (drop_bit 16 i) :: byte) = drop_bit 16 i"
  "push_bit 8 (drop_bit 32 i) + ucast (ucast (drop_bit 24 i) :: byte) = drop_bit 24 i"
  "push_bit 8 (drop_bit 40 i) + ucast (ucast (drop_bit 32 i) :: byte) = drop_bit 32 i"
  "push_bit 8 (drop_bit 48 i) + ucast (ucast (drop_bit 40 i) :: byte) = drop_bit 40 i"
  "push_bit 8 (drop_bit 56 i) + ucast (ucast (drop_bit 48 i) :: byte) = drop_bit 48 i"
  using byte_step [of i] byte_step [of "drop_bit 8 i"] byte_step [of "drop_bit 16 i"]
    byte_step [of "drop_bit 24 i"] byte_step [of "drop_bit 32 i"] byte_step [of "drop_bit 40 i"]
    byte_step [of "drop_bit 48 i"]
  by simp_all

lemma decode_encode:
  assumes rb: "\<And>b r. rb (f (b # r)) = (f r, Inr b)" and enc: "encode v = Some bs"
  shows "decode rb (f (bs @ r)) = (f r, Inr (v, length bs))"
proof -
  have dec: "decode rb (f (b0 # t)) =
     (let width = (2::nat) ^ unat (drop_bit 6 b0) in
           case read_rest rb (width - 1) (ucast (b0 AND 0x3f)) (f t) of
             (s2, Inl e) \<Rightarrow> (s2, Inl e)
           | (s2, Inr v) \<Rightarrow> (s2, Inr (v, width)))" for b0 t
    by (simp add: decode_def rb)
  consider (a) "v \<le> 63" | (b) "\<not> v \<le> 63" "v \<le> 16383"
    | (c) "\<not> v \<le> 63" "\<not> v \<le> 16383" "v \<le> 1073741823"
    | (e) "\<not> v \<le> 63" "\<not> v \<le> 16383" "\<not> v \<le> 1073741823" "v \<le> 4611686018427387903"
    using enc by (auto simp: encode_def split: if_splits)
  then show ?thesis
  proof cases
    case a
    then have bs: "bs = [ucast v]" using enc by (simp add: encode_def)
    show ?thesis unfolding bs append_Cons dec tag0 [OF a] val0 [OF a]
      by simp
  next
    case b
    then have bs: "bs = [ucast (drop_bit 8 v) OR 0x40, ucast v]" using enc by (simp add: encode_def)
    show ?thesis unfolding bs append_Cons dec tag1 [OF b(2)] val1 [OF b(2)]
      by (simp add: rb steps)
  next
    case c
    then have bs: "bs = [ucast (drop_bit 24 v) OR 0x80, ucast (drop_bit 16 v), ucast (drop_bit 8 v), ucast v]" using enc by (simp add: encode_def)
    show ?thesis unfolding bs append_Cons dec tag2 [OF c(3)] val2 [OF c(3)]
      by (simp add: rb steps numeral_3_eq_3)
  next
    case e
    then have bs: "bs = [ucast (drop_bit 56 v) OR 0xc0, ucast (drop_bit 48 v), ucast (drop_bit 40 v),
              ucast (drop_bit 32 v), ucast (drop_bit 24 v), ucast (drop_bit 16 v),
              ucast (drop_bit 8 v), ucast v]" using enc by (simp add: encode_def)
    have w: "(2::nat) ^ unat (3::byte) - 1 = Suc (Suc (Suc (Suc (Suc (Suc (Suc 0))))))"
      by simp
    show ?thesis unfolding bs append_Cons dec tag3 [OF e(4)] val3 [OF e(4)] Let_def w
      by (simp add: rb steps)
  qed
qed

lemma decode_encoded:
  "encode v = Some bs \<Longrightarrow> decode list_ReadByte (bs @ r) = (r, Inr (v, length bs))"
proof -
  assume e: "encode v = Some bs"
  have rb: "list_ReadByte ((\<lambda>x. x) (b # r)) = ((\<lambda>x. x) r, Inr b)" for b r
    by (simp add: list_ReadByte_def)
  have "decode list_ReadByte ((\<lambda>x. x) (bs @ r)) = ((\<lambda>x. x) r, Inr (v, length bs))"
    using rb e by (rule decode_encode)
  then show ?thesis by simp
qed

lemma encode_0: "encode 0 = Some [0]"
  by (simp add: encode_def)

lemma decode_0: "decode list_ReadByte (0 # r) = (r, Inr (0, 1))"
  using decode_encoded [OF encode_0, of r] by simp

lemma encode_Some: "v \<le> 4611686018427387903 \<Longrightarrow> \<exists>bs. encode v = Some bs"
  by (simp add: encode_def)

text \<open>
  C6. For every value \<open>v\<close> from \<open>0\<close> to \<open>2 ^ 62 - 1\<close>, \<open>encode v\<close> exists, and decoding it
  from a source that holds exactly these bytes yields \<open>v\<close> together with a count of
  consumed bytes equal to the length of the encoding, leaving the source empty.
\<close>

theorem varint_roundtrip:
  "v \<le> 4611686018427387903 \<Longrightarrow>
     \<exists>bs. encode v = Some bs \<and> decode list_ReadByte bs = ([], Inr (v, length bs))"
proof -
  assume "v \<le> 4611686018427387903"
  then obtain bs where bs: "encode v = Some bs" using encode_Some by blast
  from decode_encoded [OF bs, of "[]"] bs show ?thesis by simp
qed

theorem varint_roundtrip_witness:
  "(16384::uint64) \<le> 4611686018427387903 \<and>
   encode 16384 = Some [0x80, 0x00, 0x40, 0x00] \<and>
   decode list_ReadByte [0x80, 0x00, 0x40, 0x00] = ([], Inr (16384, 4))"
proof -
  have le: "(16384::uint64) \<le> 4611686018427387903" by simp
  have e: "encode 16384 = Some [0x80, 0x00, 0x40, 0x00]" by code_simp
  have n: "length [0x80, 0x00, 0x40, 0x00 :: byte] = 4" by simp
  from varint_roundtrip [OF le] e n
  have "decode list_ReadByte [0x80, 0x00, 0x40, 0x00] = ([], Inr (16384, 4))"
    by (simp del: list.size)
  with le e show ?thesis by simp
qed

section \<open>The framed stream on the conduit\<close>

lemma pipe_ReadByte:
  "byteReaderImpl_ReadByte pipe_Stream s =
     (case list_ReadByte (inbuf s) of (r, x) \<Rightarrow> (s\<lparr>inbuf := r\<rparr>, x))"
  by (cases "inbuf s")
     (simp_all add: byteReaderImpl_ReadByte_def pipe_Stream_def pipe_Read_def list_ReadByte_def)

lemma read_rest_pipe:
  "read_rest (byteReaderImpl_ReadByte pipe_Stream) k acc s =
     (case read_rest list_ReadByte k acc (inbuf s) of (r, x) \<Rightarrow> (s\<lparr>inbuf := r\<rparr>, x))"
proof (induction k arbitrary: acc s)
  case 0
  show ?case by simp
next
  case (Suc k)
  show ?case
  proof (cases "inbuf s")
    case Nil
    then have "list_ReadByte (inbuf s) = ([], Inl EOF)"
      and "byteReaderImpl_ReadByte pipe_Stream s = (s, Inl EOF)"
      by (simp_all add: pipe_ReadByte list_ReadByte_def)
    moreover have "s\<lparr>inbuf := []\<rparr> = s" using Nil by simp
    ultimately show ?thesis by simp
  next
    case (Cons b r)
    then have "list_ReadByte (inbuf s) = (r, Inr b)"
      and "byteReaderImpl_ReadByte pipe_Stream s = (s\<lparr>inbuf := r\<rparr>, Inr b)"
      by (simp_all add: pipe_ReadByte list_ReadByte_def)
    then show ?thesis by (simp add: Suc.IH)
  qed
qed

lemma decode_pipe:
  "decode (byteReaderImpl_ReadByte pipe_Stream) s =
     (case decode list_ReadByte (inbuf s) of (r, x) \<Rightarrow> (s\<lparr>inbuf := r\<rparr>, x))"
proof (cases "inbuf s")
  case Nil
  then have "list_ReadByte (inbuf s) = ([], Inl EOF)"
    and "byteReaderImpl_ReadByte pipe_Stream s = (s, Inl EOF)"
    by (simp_all add: pipe_ReadByte list_ReadByte_def)
  moreover have "s\<lparr>inbuf := []\<rparr> = s" using Nil by simp
  ultimately show ?thesis by (simp add: decode_def)
next
  case (Cons b r)
  then have "list_ReadByte (inbuf s) = (r, Inr b)"
    and "byteReaderImpl_ReadByte pipe_Stream s = (s\<lparr>inbuf := r\<rparr>, Inr b)"
    by (simp_all add: pipe_ReadByte list_ReadByte_def)
  then show ?thesis
    by (simp add: decode_def read_rest_pipe Let_def split: prod.splits sum.splits)
qed

lemma quicvarint_Read_pipe:
  "quicvarint_Read (byteReaderImpl_ReadByte pipe_Stream) s =
     (case decode list_ReadByte (inbuf s) of
        (r, Inl e) \<Rightarrow> (s\<lparr>inbuf := r\<rparr>, Inl e)
      | (r, Inr (v, n)) \<Rightarrow> (s\<lparr>inbuf := r\<rparr>, Inr v))"
  by (simp add: quicvarint_Read_def decode_pipe split: prod.splits sum.splits)

lemma Read_pipe:
  "Read pipe_Stream w m =
     (case decode list_ReadByte (inbuf (str w)) of
        (r1, Inl e) \<Rightarrow> (w\<lparr>str := (str w)\<lparr>inbuf := r1\<rparr>\<rparr>, [], Some e)
      | (r1, Inr (t, k1)) \<Rightarrow>
          (case decode list_ReadByte r1 of
             (r2, Inl e) \<Rightarrow> (w\<lparr>str := (str w)\<lparr>inbuf := r2\<rparr>\<rparr>, [], Some e)
           | (r2, Inr (l, k2)) \<Rightarrow>
               if t \<noteq> 0 then (w\<lparr>str := (str w)\<lparr>inbuf := r2\<rparr>\<rparr>, [], Some (IncorrectFrameType t))
               else (case pipe_Read ((str w)\<lparr>inbuf := r2\<rparr>) (if l < of_nat m then unat l else m) of
                       (s3, bs, err) \<Rightarrow> (w\<lparr>str := s3\<rparr>, bs, err))))"
proof -
  have br: "(case Stream_ReadByte pipe_Stream of Some rb \<Rightarrow> rb
            | None \<Rightarrow> byteReaderImpl_ReadByte pipe_Stream) = byteReaderImpl_ReadByte pipe_Stream"
    by (simp add: pipe_Stream_def)
  have rd: "Stream_Read pipe_Stream = pipe_Read" by (simp add: pipe_Stream_def)
  show ?thesis
    unfolding Read_def br Let_def rd
    by (simp add: quicvarint_Read_pipe split: prod.splits sum.splits)
qed

lemma read_rest_list:
  "read_rest list_ReadByte k acc bs = (r, Inr v) \<Longrightarrow> k \<le> length bs \<and> r = drop k bs"
proof (induction k arbitrary: acc bs)
  case 0
  then show ?case by simp
next
  case (Suc k)
  then show ?case
    by (cases bs) (auto simp: list_ReadByte_def)
qed

lemma decode_list:
  "decode list_ReadByte bs = (r, Inr (v, k)) \<Longrightarrow> 0 < k \<and> k \<le> length bs \<and> r = drop k bs"
proof (cases bs)
  case Nil
  assume "decode list_ReadByte bs = (r, Inr (v, k))"
  with Nil show ?thesis by (simp add: decode_def list_ReadByte_def)
next
  case (Cons b t)
  assume d: "decode list_ReadByte bs = (r, Inr (v, k))"
  let ?w = "(2::nat) ^ unat (drop_bit 6 b)"
  from d Cons obtain v' where rr: "read_rest list_ReadByte (?w - 1) (ucast (b AND 0x3f)) t = (r, Inr v')"
    and k: "k = ?w"
    by (auto simp: decode_def list_ReadByte_def Let_def split: prod.splits sum.splits)
  from read_rest_list [OF rr] have "?w - 1 \<le> length t" "r = drop (?w - 1) t" by simp_all
  moreover have "0 < ?w" by simp
  ultimately show ?thesis using Cons k by (auto simp: drop_Cons' )
qed

lemma len_word: "n < 2 ^ 64 \<Longrightarrow> unat (of_nat n :: uint64) = n"
  by (simp add: unat_of_nat)

lemma len_encodable:
  "n < 2 ^ 62 \<Longrightarrow> (of_nat n :: uint64) \<le> 4611686018427387903"
proof -
  assume n: "n < 2 ^ 62"
  then have "n < 2 ^ 64" by simp
  then have "unat (of_nat n :: uint64) = n" by (rule len_word)
  then show ?thesis using n by (simp add: word_le_nat_alt)
qed

lemma dataFrame_Write_header:
  "encode (Length f) = Some hl \<Longrightarrow> dataFrame_Write f b = Some (b @ 0 # hl)"
  by (simp add: dataFrame_Write_def quicvarint_Write_def encode_0)

lemma Write_pipe:
  assumes "encode (of_nat (length P)) = Some hl"
  shows "Write pipe_Stream w P =
     Some (w\<lparr>str := (str w)\<lparr>outbuf := outbuf (str w) @ 0 # hl @ P\<rparr>\<rparr>, length P, None)"
proof -
  have "dataFrame_Write \<lparr>Length = of_nat (length P)\<rparr> [] = Some (0 # hl)"
    using assms by (simp add: dataFrame_Write_header)
  then show ?thesis
    by (simp add: Write_def pipe_Stream_def pipe_Write_def)
qed

text \<open>
  C2. For every payload \<open>P\<close> (of a length below \<open>2 ^ 62\<close>, so that the length has an
  encoding), one call of \<open>Write\<close> on the conduit appends to the bytes accepted so far
  exactly the encoding of \<open>0\<close>, the encoding of the length of \<open>P\<close> and \<open>P\<close> itself,
  nothing else, and returns the length of \<open>P\<close> without an error: one complete frame per
  call.
\<close>

theorem Write_emits_one_frame:
  assumes "length P < 2 ^ 62"
  shows "\<exists>ht hl. encode 0 = Some ht \<and> encode (of_nat (length P)) = Some hl \<and>
           Write pipe_Stream w P =
             Some (w\<lparr>str := (str w)\<lparr>outbuf := outbuf (str w) @ ht @ hl @ P\<rparr>\<rparr>,
                   length P, None)"
proof -
  from assms obtain hl where hl: "encode (of_nat (length P)) = Some hl"
    using len_encodable encode_Some by blast
  from Write_pipe [OF hl] encode_0 hl show ?thesis by simp
qed

theorem Write_emits_one_frame_witness:
  "length (replicate 250 (1::byte)) < 2 ^ 62 \<and>
   encode 0 = Some [0x00] \<and> encode (of_nat (length (replicate 250 (1::byte)))) = Some [0x40, 0xfa] \<and>
   Write pipe_Stream \<lparr>str = \<lparr>inbuf = [], outbuf = [], closes = 0\<rparr>\<rparr> (replicate 250 1) =
     Some (\<lparr>str = \<lparr>inbuf = [], outbuf = [0x00] @ [0x40, 0xfa] @ replicate 250 1, closes = 0\<rparr>\<rparr>,
           250, None)"
proof -
  have len: "length (replicate 250 (1::byte)) < 2 ^ 62" by simp
  have e0: "encode 0 = Some [0x00]" by code_simp
  have el: "encode (of_nat (length (replicate 250 (1::byte)))) = Some [0x40, 0xfa]" by code_simp
  from Write_emits_one_frame [OF len, of "\<lparr>str = \<lparr>inbuf = [], outbuf = [], closes = 0\<rparr>\<rparr>"] e0 el
  have "Write pipe_Stream \<lparr>str = \<lparr>inbuf = [], outbuf = [], closes = 0\<rparr>\<rparr> (replicate 250 1) =
     Some (\<lparr>str = \<lparr>inbuf = [], outbuf = [0x00] @ [0x40, 0xfa] @ replicate 250 1, closes = 0\<rparr>\<rparr>,
           250, None)"
    by simp
  with len e0 el show ?thesis by blast
qed

lemma less_len: "m < 2 ^ 64 \<Longrightarrow> n < 2 ^ 64 \<Longrightarrow> ((of_nat n :: uint64) < of_nat m) = (n < m)"
  by (simp add: word_less_nat_alt len_word)

lemma Read_frame:
  assumes hl: "encode l = Some hl" and inb: "inbuf (str w) = 0 # hl @ rest"
  shows "Read pipe_Stream w m =
     (case pipe_Read ((str w)\<lparr>inbuf := rest\<rparr>) (if l < of_nat m then unat l else m) of
        (s3, bs, err) \<Rightarrow> (w\<lparr>str := s3\<rparr>, bs, err))"
proof -
  have d1: "decode list_ReadByte (inbuf (str w)) = (hl @ rest, Inr (0, 1))"
    unfolding inb by (rule decode_0)
  have d2: "decode list_ReadByte (hl @ rest) = (rest, Inr (l, length hl))"
    using hl by (rule decode_encoded)
  show ?thesis by (simp add: Read_pipe d1 d2)
qed

text \<open>
  C3. A payload \<open>P\<close> written to a framed stream on a fresh conduit and read at the
  receiving end of that conduit, which delivers all the bytes written, with a buffer of
  at least the length of \<open>P\<close> comes back as exactly \<open>P\<close>, without an error, in one call
  of \<open>Read\<close>. The lengths are those of Go: the payload below \<open>2 ^ 62\<close> bytes, the
  buffer within \<open>int\<close>.
\<close>

theorem frame_roundtrip:
  assumes len: "length P < 2 ^ 62" and m: "length P \<le> m" and mb: "m < 2 ^ 63"
    and fresh: "outbuf (str w) = []"
  shows "\<exists>w' r. Write pipe_Stream w P = Some (w', length P, None) \<and>
           Read pipe_Stream (NewRWStream (peer (str w'))) m = (r, P, None)"
proof -
  from len obtain hl where hl: "encode (of_nat (length P)) = Some hl"
    using len_encodable encode_Some by blast
  let ?w' = "w\<lparr>str := (str w)\<lparr>outbuf := outbuf (str w) @ 0 # hl @ P\<rparr>\<rparr>"
  have wr: "Write pipe_Stream w P = Some (?w', length P, None)"
    using hl by (rule Write_pipe)
  have inb: "inbuf (str (NewRWStream (peer (str ?w')))) = 0 # hl @ P"
    using fresh by (simp add: NewRWStream_def peer_def)
  have l64: "length P < 2 ^ 64" using len by simp
  have m64: "m < 2 ^ 64" using mb by simp
  have cmp: "((of_nat (length P) :: uint64) < of_nat m) = (length P < m)"
    using m64 l64 by (rule less_len)
  have un: "unat (of_nat (length P) :: uint64) = length P" using l64 by (rule len_word)
  let ?r = "NewRWStream (peer (str ?w'))"
  let ?n = "if (of_nat (length P) :: uint64) < of_nat m
            then unat (of_nat (length P) :: uint64) else m"
  have n: "?n = length P" using m by (simp add: cmp un)
  have "pipe_Read ((str ?r)\<lparr>inbuf := P\<rparr>) (length P) =
          (if P = [] then (str ?r)\<lparr>inbuf := P\<rparr> else (str ?r)\<lparr>inbuf := []\<rparr>, P, None)"
    by (simp add: pipe_Read_def)
  then have "Read pipe_Stream ?r m =
      (?r\<lparr>str := if P = [] then (str ?r)\<lparr>inbuf := P\<rparr> else (str ?r)\<lparr>inbuf := []\<rparr>\<rparr>, P, None)"
    unfolding Read_frame [OF hl inb, of m] n by simp
  with wr show ?thesis by blast
qed

theorem frame_roundtrip_witness:
  "length [0x50, 0x4f, 0x4e, 0x47 :: byte] < 2 ^ 62 \<and> length [0x50, 0x4f, 0x4e, 0x47 :: byte] \<le> 100 \<and>
   (100::nat) < 2 ^ 63 \<and>
   (\<exists>w' r. Write pipe_Stream \<lparr>str = \<lparr>inbuf = [], outbuf = [], closes = 0\<rparr>\<rparr> [0x50, 0x4f, 0x4e, 0x47] =
            Some (w', 4, None) \<and>
          Read pipe_Stream (NewRWStream (peer (str w'))) 100 = (r, [0x50, 0x4f, 0x4e, 0x47], None))"
proof -
  have a: "length [0x50, 0x4f, 0x4e, 0x47 :: byte] < 2 ^ 62" by simp
  have b: "length [0x50, 0x4f, 0x4e, 0x47 :: byte] \<le> 100" by simp
  have c: "(100::nat) < 2 ^ 63" by simp
  have d: "outbuf (str \<lparr>str = \<lparr>inbuf = [], outbuf = [], closes = 0\<rparr>\<rparr>) = []" by simp
  have n: "length [0x50, 0x4f, 0x4e, 0x47 :: byte] = 4" by simp
  from frame_roundtrip [OF a b c d]
  have "\<exists>w' r. Write pipe_Stream \<lparr>str = \<lparr>inbuf = [], outbuf = [], closes = 0\<rparr>\<rparr> [0x50, 0x4f, 0x4e, 0x47] =
            Some (w', 4, None) \<and>
          Read pipe_Stream (NewRWStream (peer (str w'))) 100 = (r, [0x50, 0x4f, 0x4e, 0x47], None)"
    unfolding n .
  with a b c show ?thesis by blast
qed

text \<open>
  C4. When the bytes waiting on the conduit start with the header of a frame whose type
  \<open>t\<close> is not \<open>0\<close>, \<open>Read\<close> returns no payload byte and the error
  \<open>IncorrectFrameType t\<close>, whatever the length \<open>l\<close> the header declares and whatever the
  size of the buffer. The bytes after the header stay on the conduit: nothing is skipped
  and no later header is looked for.
\<close>

theorem Read_rejects_other_type:
  assumes "encode t = Some ht" and "encode l = Some hl" and "t \<noteq> 0"
    and "inbuf (str w) = ht @ hl @ rest"
  shows "Read pipe_Stream w m =
           (w\<lparr>str := (str w)\<lparr>inbuf := rest\<rparr>\<rparr>, [], Some (IncorrectFrameType t))"
proof -
  have d1: "decode list_ReadByte (inbuf (str w)) = (hl @ rest, Inr (t, length ht))"
    unfolding assms(4) using assms(1) by (rule decode_encoded)
  have d2: "decode list_ReadByte (hl @ rest) = (rest, Inr (l, length hl))"
    using assms(2) by (rule decode_encoded)
  show ?thesis using assms(3) by (simp add: Read_pipe d1 d2)
qed

theorem Read_rejects_other_type_witness:
  "encode 1 = Some [0x01] \<and> encode 4 = Some [0x04] \<and> (1::uint64) \<noteq> 0 \<and>
   Read pipe_Stream \<lparr>str = \<lparr>inbuf = [0x01, 0x04, 0x50, 0x4f, 0x4e, 0x47], outbuf = [], closes = 0\<rparr>\<rparr> 100 =
     (\<lparr>str = \<lparr>inbuf = [0x50, 0x4f, 0x4e, 0x47], outbuf = [], closes = 0\<rparr>\<rparr>, [],
      Some (IncorrectFrameType 1))"
proof -
  have a: "encode 1 = Some [0x01]" by code_simp
  have b: "encode 4 = Some [0x04]" by code_simp
  have c: "(1::uint64) \<noteq> 0" by simp
  have d: "inbuf (str \<lparr>str = \<lparr>inbuf = [0x01, 0x04, 0x50, 0x4f, 0x4e, 0x47], outbuf = [], closes = 0\<rparr>\<rparr>)
             = [0x01] @ [0x04] @ [0x50, 0x4f, 0x4e, 0x47]" by simp
  from Read_rejects_other_type [OF a b c d, of 100] a b c show ?thesis by simp
qed

text \<open>
  C9. When the first varint on the conduit decodes to a type \<open>t\<close> other than \<open>0\<close>, the
  frame type error is returned only after the second varint has been read too: if that
  second read fails, its error is what \<open>Read\<close> returns; if it succeeds, \<open>Read\<close> returns no
  byte and \<open>IncorrectFrameType t\<close>, and the conduit has advanced by the \<open>k1 + k2\<close> bytes
  of the two varints, past the offending header.
\<close>

theorem type_error_after_both_varints:
  assumes d1: "decode list_ReadByte (inbuf (str w)) = (r1, Inr (t, k1))" and t: "t \<noteq> 0"
  shows "Read pipe_Stream w m =
     (case decode list_ReadByte r1 of
        (r2, Inl e) \<Rightarrow> (w\<lparr>str := (str w)\<lparr>inbuf := r2\<rparr>\<rparr>, [], Some e)
      | (r2, Inr (l, k2)) \<Rightarrow>
          (w\<lparr>str := (str w)\<lparr>inbuf := drop (k1 + k2) (inbuf (str w))\<rparr>\<rparr>, [],
           Some (IncorrectFrameType t)))"
proof (cases "decode list_ReadByte r1")
  case (Pair r2 x)
  show ?thesis
  proof (cases x)
    case (Inl e)
    with Pair d1 show ?thesis by (simp add: Read_pipe)
  next
    case (Inr p)
    obtain l k2 where p: "p = (l, k2)" by (cases p)
    from decode_list [OF d1] have r1: "r1 = drop k1 (inbuf (str w))" by simp
    from Pair Inr p have d2: "decode list_ReadByte r1 = (r2, Inr (l, k2))" by simp
    from decode_list [OF d2] r1 have "r2 = drop (k1 + k2) (inbuf (str w))"
      by (simp add: add.commute)
    with d1 d2 t show ?thesis by (simp add: Read_pipe)
  qed
qed

theorem type_error_after_both_varints_witness:
  "decode list_ReadByte [0x40, 0x01, 0x04, 0x50, 0x4f] = ([0x04, 0x50, 0x4f], Inr (1, 2)) \<and>
   (1::uint64) \<noteq> 0 \<and>
   Read pipe_Stream \<lparr>str = \<lparr>inbuf = [0x40, 0x01, 0x04, 0x50, 0x4f], outbuf = [], closes = 0\<rparr>\<rparr> 100 =
     (\<lparr>str = \<lparr>inbuf = [0x50, 0x4f], outbuf = [], closes = 0\<rparr>\<rparr>, [],
      Some (IncorrectFrameType 1))"
proof -
  have a: "decode list_ReadByte
             (inbuf (str \<lparr>str = \<lparr>inbuf = [0x40, 0x01, 0x04, 0x50, 0x4f], outbuf = [], closes = 0\<rparr>\<rparr>))
           = ([0x04, 0x50, 0x4f], Inr (1, 2))" by code_simp
  have a': "decode list_ReadByte [0x40, 0x01, 0x04, 0x50, 0x4f] = ([0x04, 0x50, 0x4f], Inr (1, 2))"
    by code_simp
  have b: "decode list_ReadByte [0x04, 0x50, 0x4f] = ([0x50, 0x4f], Inr (4, 1))" by code_simp
  have c: "(1::uint64) \<noteq> 0" by simp
  from type_error_after_both_varints [OF a c, of 100] a' b c show ?thesis by simp
qed

section \<open>Reading a frame in several calls\<close>

text \<open>
  C1, the code at the failing input. A payload of 250 bytes, each of value 1, is written
  as one frame; the receiving end reads with a buffer of 100 bytes. The first \<open>Read\<close>
  returns the first 100 bytes of the payload. The second \<open>Read\<close> does not go on with the
  frame: it decodes the next two bytes of the payload as a header of type 1 and length 1
  and returns no byte and \<open>IncorrectFrameType 1\<close>, where a second chunk of 100 bytes is
  due.
\<close>

theorem split_read_misparses_payload:
  "Write pipe_Stream \<lparr>str = \<lparr>inbuf = [], outbuf = [], closes = 0\<rparr>\<rparr> (replicate 250 1) =
     Some (\<lparr>str = \<lparr>inbuf = [], outbuf = [0x00, 0x40, 0xfa] @ replicate 250 1, closes = 0\<rparr>\<rparr>,
           250, None) \<and>
   peer \<lparr>inbuf = [], outbuf = [0x00, 0x40, 0xfa] @ replicate 250 1, closes = 0\<rparr> =
     \<lparr>inbuf = [0x00, 0x40, 0xfa] @ replicate 250 1, outbuf = [], closes = 0\<rparr> \<and>
   Read pipe_Stream
        \<lparr>str = \<lparr>inbuf = [0x00, 0x40, 0xfa] @ replicate 250 1, outbuf = [], closes = 0\<rparr>\<rparr> 100 =
     (\<lparr>str = \<lparr>inbuf = replicate 150 1, outbuf = [], closes = 0\<rparr>\<rparr>, replicate 100 1, None) \<and>
   Read pipe_Stream \<lparr>str = \<lparr>inbuf = replicate 150 1, outbuf = [], closes = 0\<rparr>\<rparr> 100 =
     (\<lparr>str = \<lparr>inbuf = replicate 148 1, outbuf = [], closes = 0\<rparr>\<rparr>, [],
      Some (IncorrectFrameType 1))"
  by code_simp

text \<open>
  C5. For every state a framed stream on the conduit can be in, and so whatever earlier
  calls have left undelivered of a frame, a call of \<open>Read\<close> that returns without an error
  or returns any byte has first decoded two varints from the front of the bytes waiting
  on the conduit, a type equal to \<open>0\<close> and a length \<open>l\<close>, of \<open>k1\<close> and \<open>k2\<close> bytes; the
  bytes it returns are taken after these \<open>k1 + k2\<close> bytes, at most \<open>l\<close> and at most the
  size of the buffer. The stream object after the call is the one \<open>NewRWStream\<close> makes
  from its conduit: it holds nothing about the progress within a frame.
\<close>

theorem Read_parses_header_every_call:
  assumes rd: "Read pipe_Stream w m = (w', bs, err)" and ok: "err = None \<or> bs \<noteq> []"
  shows "\<exists>r1 k1 l k2.
           decode list_ReadByte (inbuf (str w)) = (r1, Inr (0, k1)) \<and>
           decode list_ReadByte r1 = (drop (k1 + k2) (inbuf (str w)), Inr (l, k2)) \<and>
           bs = take (if l < of_nat m then unat l else m) (drop (k1 + k2) (inbuf (str w))) \<and>
           w' = NewRWStream (str w')"
proof -
  obtain r1 x1 where d1: "decode list_ReadByte (inbuf (str w)) = (r1, x1)"
    by (cases "decode list_ReadByte (inbuf (str w))")
  obtain r2 x2 where d2: "decode list_ReadByte r1 = (r2, x2)"
    by (cases "decode list_ReadByte r1")
  from rd ok d1 obtain t k1 where x1: "x1 = Inr (t, k1)"
    by (cases x1) (auto simp: Read_pipe)
  from rd ok d1 d2 x1 obtain l k2 where x2: "x2 = Inr (l, k2)"
    by (cases x2) (auto simp: Read_pipe)
  from rd ok d1 d2 x1 x2 have t: "t = 0"
    by (auto simp: Read_pipe split: if_splits)
  from decode_list [OF d1 [unfolded x1]] have r1: "r1 = drop k1 (inbuf (str w))" by simp
  from decode_list [OF d2 [unfolded x2]] r1 have r2: "r2 = drop (k1 + k2) (inbuf (str w))"
    by (simp add: add.commute)
  let ?n = "if l < of_nat m then unat l else m"
  from rd d1 d2 x1 x2 t
  have "(case pipe_Read ((str w)\<lparr>inbuf := r2\<rparr>) ?n of (s3, bs, err) \<Rightarrow> (w\<lparr>str := s3\<rparr>, bs, err))
          = (w', bs, err)"
    by (simp add: Read_pipe)
  then have "bs = take ?n r2"
    by (auto simp: pipe_Read_def split: if_splits)
  moreover have "w' = NewRWStream (str w')" by (simp add: NewRWStream_def)
  ultimately show ?thesis using d1 d2 x1 x2 t r2 by blast
qed

theorem Read_parses_header_every_call_witness:
  "Read pipe_Stream \<lparr>str = \<lparr>inbuf = [0x00, 0x02, 0x07, 0x08, 0x09], outbuf = [], closes = 0\<rparr>\<rparr> 100 =
     (\<lparr>str = \<lparr>inbuf = [0x09], outbuf = [], closes = 0\<rparr>\<rparr>, [0x07, 0x08], None) \<and>
   (\<exists>r1 k1 l k2.
      decode list_ReadByte
        (inbuf (str \<lparr>str = \<lparr>inbuf = [0x00, 0x02, 0x07, 0x08, 0x09], outbuf = [], closes = 0\<rparr>\<rparr>)) =
        (r1, Inr (0, k1)) \<and>
      decode list_ReadByte r1 =
        (drop (k1 + k2)
           (inbuf (str \<lparr>str = \<lparr>inbuf = [0x00, 0x02, 0x07, 0x08, 0x09], outbuf = [], closes = 0\<rparr>\<rparr>)),
         Inr (l, k2)) \<and>
      [0x07, 0x08] =
        take (if l < of_nat 100 then unat l else 100)
          (drop (k1 + k2)
             (inbuf (str \<lparr>str = \<lparr>inbuf = [0x00, 0x02, 0x07, 0x08, 0x09], outbuf = [], closes = 0\<rparr>\<rparr>))) \<and>
      \<lparr>str = \<lparr>inbuf = [0x09], outbuf = [], closes = 0\<rparr>\<rparr> =
        NewRWStream (str \<lparr>str = \<lparr>inbuf = [0x09], outbuf = [], closes = 0\<rparr>\<rparr>))"
proof -
  have rd: "Read pipe_Stream \<lparr>str = \<lparr>inbuf = [0x00, 0x02, 0x07, 0x08, 0x09], outbuf = [], closes = 0\<rparr>\<rparr> 100 =
     (\<lparr>str = \<lparr>inbuf = [0x09], outbuf = [], closes = 0\<rparr>\<rparr>, [0x07, 0x08], None)"
    by code_simp
  have ok: "(None :: error option) = None \<or> [0x07, 0x08 :: byte] \<noteq> []" by simp
  from rd Read_parses_header_every_call [OF rd ok] show ?thesis by (rule conjI)
qed

section \<open>End of data\<close>

text \<open>
  C7, counterexample. The conduit delivers a header of type \<open>0\<close> declaring 50 bytes and
  then signals end-of-data. \<open>Read\<close> returns no byte and \<open>EOF\<close>, the very result it
  returns on a conduit at end-of-data with no frame in progress. When 20 of the 50 bytes
  arrive before end-of-data, \<open>Read\<close> returns them without any error.
\<close>

theorem eof_mid_frame_is_plain_EOF:
  "Read pipe_Stream \<lparr>str = \<lparr>inbuf = [0x00, 0x32], outbuf = [], closes = 0\<rparr>\<rparr> 100 =
     (\<lparr>str = \<lparr>inbuf = [], outbuf = [], closes = 0\<rparr>\<rparr>, [], Some EOF) \<and>
   Read pipe_Stream \<lparr>str = \<lparr>inbuf = [], outbuf = [], closes = 0\<rparr>\<rparr> 100 =
     (\<lparr>str = \<lparr>inbuf = [], outbuf = [], closes = 0\<rparr>\<rparr>, [], Some EOF) \<and>
   Read pipe_Stream \<lparr>str = \<lparr>inbuf = [0x00, 0x32] @ replicate 20 7, outbuf = [], closes = 0\<rparr>\<rparr> 100 =
     (\<lparr>str = \<lparr>inbuf = [], outbuf = [], closes = 0\<rparr>\<rparr>, replicate 20 7, None)"
  by code_simp

text \<open>
  C7, amended. If the conduit signals clean end-of-data after the header of a frame
  declaring a length other than \<open>0\<close> and before any byte of its payload, \<open>Read\<close> with a
  buffer that is not empty returns no byte and the conduit's own end-of-data signal
  \<open>EOF\<close>, unchanged; the next call, with no frame in progress, returns the same.
\<close>

theorem Read_eof_after_header:
  assumes hl: "encode l = Some hl" and l: "l \<noteq> 0" and m: "0 < m"
    and inb: "inbuf (str w) = 0 # hl"
  shows "Read pipe_Stream w m = (w\<lparr>str := (str w)\<lparr>inbuf := []\<rparr>\<rparr>, [], Some EOF) \<and>
         Read pipe_Stream (w\<lparr>str := (str w)\<lparr>inbuf := []\<rparr>\<rparr>) m =
           (w\<lparr>str := (str w)\<lparr>inbuf := []\<rparr>\<rparr>, [], Some EOF)"
proof -
  have "unat l \<noteq> 0" using l by (simp add: unat_eq_0)
  then have n: "(if l < of_nat m then unat l else m) \<noteq> 0" using m by simp
  from inb have inb': "inbuf (str w) = 0 # hl @ []" by simp
  have a: "Read pipe_Stream w m = (w\<lparr>str := (str w)\<lparr>inbuf := []\<rparr>\<rparr>, [], Some EOF)"
    unfolding Read_frame [OF hl inb'] using n by (simp add: pipe_Read_def)
  have "decode list_ReadByte [] = ([], Inl EOF)"
    by (simp add: decode_def list_ReadByte_def)
  then have b: "Read pipe_Stream (w\<lparr>str := (str w)\<lparr>inbuf := []\<rparr>\<rparr>) m =
           (w\<lparr>str := (str w)\<lparr>inbuf := []\<rparr>\<rparr>, [], Some EOF)"
    by (simp add: Read_pipe)
  from a b show ?thesis ..
qed

theorem Read_eof_after_header_witness:
  "encode 50 = Some [0x32] \<and> (50::uint64) \<noteq> 0 \<and> (0::nat) < 100 \<and>
   Read pipe_Stream \<lparr>str = \<lparr>inbuf = [0x00, 0x32], outbuf = [], closes = 0\<rparr>\<rparr> 100 =
     (\<lparr>str = \<lparr>inbuf = [], outbuf = [], closes = 0\<rparr>\<rparr>, [], Some EOF)"
proof -
  have a: "encode 50 = Some [0x32]" by code_simp
  have b: "(50::uint64) \<noteq> 0" by simp
  have c: "(0::nat) < 100" by simp
  have d: "inbuf (str \<lparr>str = \<lparr>inbuf = [0x00, 0x32], outbuf = [], closes = 0\<rparr>\<rparr>) = 0 # [0x32]"
    by simp
  from Read_eof_after_header [OF a b c d] a b c show ?thesis by simp
qed

section \<open>Closing\<close>

lemma Close_pipe:
  "Close pipe_Stream w = (w\<lparr>str := (str w)\<lparr>closes := Suc (closes (str w))\<rparr>\<rparr>, None)"
  by (simp add: Close_def pipe_Stream_def pipe_Close_def)

lemma Close_times_pipe:
  "str (Close_times pipe_Stream k w) = (str w)\<lparr>closes := closes (str w) + k\<rparr>"
  by (induction k arbitrary: w) (simp_all add: Close_pipe)

lemma Read_pipe_closes:
  "snd (Read pipe_Stream (w\<lparr>str := (str w)\<lparr>closes := c\<rparr>\<rparr>) m) = snd (Read pipe_Stream w m)"
  by (simp add: Read_pipe pipe_Read_def split: prod.splits sum.splits)

text \<open>
  C8, counterexample. Two calls of \<open>Close\<close> close the conduit twice, and a \<open>Read\<close> after
  \<open>Close\<close> on a conduit that still holds a frame returns its payload without an error.
\<close>

theorem close_twice_reaches_conduit_twice:
  "closes (str (Close_times pipe_Stream 2
                  \<lparr>str = \<lparr>inbuf = [0x00, 0x01, 0x07], outbuf = [], closes = 0\<rparr>\<rparr>)) = 2 \<and>
   Read pipe_Stream
        (fst (Close pipe_Stream \<lparr>str = \<lparr>inbuf = [0x00, 0x01, 0x07], outbuf = [], closes = 0\<rparr>\<rparr>))
        100 =
     (\<lparr>str = \<lparr>inbuf = [], outbuf = [], closes = 1\<rparr>\<rparr>, [0x07], None)"
  by code_simp

text \<open>
  C8, amended. Every call of \<open>Close\<close> calls the \<open>Close\<close> of the conduit once and returns
  its result, on any conduit; the framed stream keeps no record of being closed. So
  \<open>k\<close> calls close the conduit \<open>k\<close> times, leaving the bytes on it as they were, and a
  \<open>Read\<close> after them is passed to the conduit like a \<open>Read\<close> before them: on a conduit that
  goes on delivering, it returns the same bytes and the same error.
\<close>

theorem Close_forwards_every_call:
  "Close ops w = (w\<lparr>str := fst (Stream_Close ops (str w))\<rparr>, snd (Stream_Close ops (str w))) \<and>
   closes (str (Close_times pipe_Stream k v)) = closes (str v) + k \<and>
   inbuf (str (Close_times pipe_Stream k v)) = inbuf (str v) \<and>
   outbuf (str (Close_times pipe_Stream k v)) = outbuf (str v) \<and>
   snd (Read pipe_Stream (Close_times pipe_Stream k v) m) = snd (Read pipe_Stream v m)"
proof -
  have a: "Close ops w = (w\<lparr>str := fst (Stream_Close ops (str w))\<rparr>, snd (Stream_Close ops (str w)))"
    by (simp add: Close_def split: prod.splits)
  have "Close_times pipe_Stream k v = v\<lparr>str := (str v)\<lparr>closes := closes (str v) + k\<rparr>\<rparr>"
    using Close_times_pipe [of k v] by (cases "Close_times pipe_Stream k v"; cases v) simp
  then have b: "snd (Read pipe_Stream (Close_times pipe_Stream k v) m) = snd (Read pipe_Stream v m)"
    by (simp only: Read_pipe_closes)
  from a b show ?thesis by (simp add: Close_times_pipe)
qed

section \<open>What a write returns\<close>

text \<open>
  C10. On any conduit, with \<open>hdr\<close> the header of the payload \<open>P\<close>: if the write of the
  header returns no error, \<open>Write\<close> returns what the second write, that of \<open>P\<close> alone,
  returns, so its count is the number of payload bytes accepted and never includes the
  header; if the write of the header returns an error, \<open>Write\<close> returns \<open>0\<close> with that
  error whatever count \<open>n1\<close> of header bytes was accepted, and the conduit is left as the
  header write left it: the payload is not written.
\<close>

theorem Write_count_is_payload_count:
  assumes hdr: "dataFrame_Write \<lparr>Length = of_nat (length P)\<rparr> [] = Some hdr"
    and w1: "Stream_Write ops (str w) hdr = (s1, n1, e1)"
    and w2: "Stream_Write ops s1 P = (s2, n2, e2)"
  shows "Write ops w P =
           Some (if e1 = None then (w\<lparr>str := s2\<rparr>, n2, e2) else (w\<lparr>str := s1\<rparr>, 0, e1))"
  using hdr w1 w2 by (cases e1) (simp_all add: Write_def)

theorem Write_count_is_payload_count_witness:
  "dataFrame_Write \<lparr>Length = of_nat (length [0x50, 0x49, 0x4e, 0x47 :: byte])\<rparr> [] = Some [0x00, 0x04] \<and>
   Stream_Write (short_Stream 1) \<lparr>inbuf = [], outbuf = [], closes = 0\<rparr> [0x00, 0x04] =
     (\<lparr>inbuf = [], outbuf = [0x00], closes = 0\<rparr>, 1, Some (StreamError 0)) \<and>
   Write (short_Stream 1) \<lparr>str = \<lparr>inbuf = [], outbuf = [], closes = 0\<rparr>\<rparr> [0x50, 0x49, 0x4e, 0x47] =
     Some (\<lparr>str = \<lparr>inbuf = [], outbuf = [0x00], closes = 0\<rparr>\<rparr>, 0, Some (StreamError 0)) \<and>
   Stream_Write (short_Stream 3) \<lparr>inbuf = [], outbuf = [], closes = 0\<rparr> [0x00, 0x04] =
     (\<lparr>inbuf = [], outbuf = [0x00, 0x04], closes = 0\<rparr>, 2, None) \<and>
   Write (short_Stream 3) \<lparr>str = \<lparr>inbuf = [], outbuf = [], closes = 0\<rparr>\<rparr> [0x50, 0x49, 0x4e, 0x47] =
     Some (\<lparr>str = \<lparr>inbuf = [], outbuf = [0x00, 0x04, 0x50, 0x49, 0x4e], closes = 0\<rparr>\<rparr>, 3,
           Some (StreamError 0))"
proof -
  have hdr: "dataFrame_Write \<lparr>Length = of_nat (length [0x50, 0x49, 0x4e, 0x47 :: byte])\<rparr> [] =
               Some [0x00, 0x04]"
    by code_simp
  have a1: "Stream_Write (short_Stream 1)
              (str \<lparr>str = \<lparr>inbuf = [], outbuf = [], closes = 0\<rparr>\<rparr>) [0x00, 0x04] =
            (\<lparr>inbuf = [], outbuf = [0x00], closes = 0\<rparr>, 1, Some (StreamError 0))"
    by code_simp
  have a2: "Stream_Write (short_Stream 1) \<lparr>inbuf = [], outbuf = [0x00], closes = 0\<rparr>
              [0x50, 0x49, 0x4e, 0x47] =
            (\<lparr>inbuf = [], outbuf = [0x00, 0x50], closes = 0\<rparr>, 1, Some (StreamError 0))"
    by code_simp
  have b1: "Stream_Write (short_Stream 3)
              (str \<lparr>str = \<lparr>inbuf = [], outbuf = [], closes = 0\<rparr>\<rparr>) [0x00, 0x04] =
            (\<lparr>inbuf = [], outbuf = [0x00, 0x04], closes = 0\<rparr>, 2, None)"
    by code_simp
  have b2: "Stream_Write (short_Stream 3) \<lparr>inbuf = [], outbuf = [0x00, 0x04], closes = 0\<rparr>
              [0x50, 0x49, 0x4e, 0x47] =
            (\<lparr>inbuf = [], outbuf = [0x00, 0x04, 0x50, 0x49, 0x4e], closes = 0\<rparr>, 3,
             Some (StreamError 0))"
    by code_simp
  from Write_count_is_payload_count [OF hdr a1 a2] Write_count_is_payload_count [OF hdr b1 b2]
    hdr a1 b1
  show ?thesis by simp
qed

end
